theory Spec2Isabelle
  imports Main
begin

section \<open>The Minesweeper knowledge engine of \<^verbatim>\<open>minesweeper.py\<close>\<close>

text \<open>
  A cell is the Python tuple \<^verbatim>\<open>(i, j)\<close> of two unbounded integers. Python sets of cells
  are HOL sets; where the source iterates over a set (\<^verbatim>\<open>list(s)\<close>) and the result does not
  depend on the order, the loop is written as the set operation it computes, and where the
  order matters (\<^verbatim>\<open>make_safe_move\<close>) the enumeration is an argument of the model.
\<close>

type_synonym cell = "int \<times> int"

subsection \<open>Class \<^verbatim>\<open>Minesweeper\<close>: the board\<close>

text \<open>
  \<^verbatim>\<open>board[i][j]\<close> is true exactly for the cells of \<^verbatim>\<open>self.mines\<close>, so the board is its
  height, its width and its set of mines. The fields are prefixed, since the engine has
  fields of the same names.
\<close>

record minesweeper =
  g_height :: int
  g_width :: int
  g_mines :: "cell set"

text \<open>The two nested \<^verbatim>\<open>range\<close> loops of \<^verbatim>\<open>nearby_mines\<close>, row by row.\<close>

definition window :: "cell \<Rightarrow> cell list" where
  "window c = concat (map (\<lambda>i. map (\<lambda>j. (i, j)) [snd c - 1 .. snd c + 1]) [fst c - 1 .. fst c + 1])"

definition nearby_mines :: "minesweeper \<Rightarrow> cell \<Rightarrow> int" where
  "nearby_mines g c =
     int (length (filter
       (\<lambda>(i, j). (i, j) \<noteq> c \<and> 0 \<le> i \<and> i < g_height g \<and> 0 \<le> j \<and> j < g_width g \<and> (i, j) \<in> g_mines g)
       (window c)))"

subsection \<open>Class \<^verbatim>\<open>Sentence\<close>\<close>

text \<open>
  \<^verbatim>\<open>__eq__\<close> compares the cells and the count, which is the equality of the record.
  \<^verbatim>\<open>__init__\<close> copies the cells into a set of its own, so no two sentences share a set.
\<close>

record sentence =
  cells :: "cell set"
  count :: int

definition known_mines :: "sentence \<Rightarrow> cell set option" where
  "known_mines s = (if int (card (cells s)) = count s then Some (cells s) else None)"

definition known_safes :: "sentence \<Rightarrow> cell set option" where
  "known_safes s = (if count s = 0 then Some (cells s) else None)"

definition sentence_mark_mine :: "cell \<Rightarrow> sentence \<Rightarrow> sentence" where
  "sentence_mark_mine c s =
     (if c \<in> cells s then s\<lparr>cells := cells s - {c}, count := count s - 1\<rparr> else s)"

definition sentence_mark_safe :: "cell \<Rightarrow> sentence \<Rightarrow> sentence" where
  "sentence_mark_safe c s = (if c \<in> cells s then s\<lparr>cells := cells s - {c}\<rparr> else s)"

subsection \<open>Class \<^verbatim>\<open>MinesweeperAI\<close>\<close>

record ai =
  height :: int
  width :: int
  moves_made :: "cell set"
  mines :: "cell set"
  safes :: "cell set"
  knowledge :: "sentence list"

definition init_ai :: "int \<Rightarrow> int \<Rightarrow> ai" where
  "init_ai h w = \<lparr>height = h, width = w, moves_made = {}, mines = {}, safes = {}, knowledge = []\<rparr>"

definition mark_mine :: "cell \<Rightarrow> ai \<Rightarrow> ai" where
  "mark_mine c st =
     st\<lparr>mines := insert c (mines st), knowledge := map (sentence_mark_mine c) (knowledge st)\<rparr>"

definition mark_safe :: "cell \<Rightarrow> ai \<Rightarrow> ai" where
  "mark_safe c st =
     st\<lparr>safes := insert c (safes st), knowledge := map (sentence_mark_safe c) (knowledge st)\<rparr>"

text \<open>
  The list of the eight cells around \<^verbatim>\<open>(i, j)\<close>, in the order in which \<^verbatim>\<open>add_knowledge\<close>
  writes it, once for the new sentence and once for \<^verbatim>\<open>temp\<close>.
\<close>

definition neighbours :: "cell \<Rightarrow> cell list" where
  "neighbours c =
     (let i = fst c; j = snd c
      in [(i - 1, j + 1), (i, j + 1), (i + 1, j + 1), (i - 1, j), (i + 1, j),
          (i - 1, j - 1), (i, j - 1), (i + 1, j - 1)])"

text \<open>
  The body of the two \<^verbatim>\<open>for\<close> loops over pairs of indices: the sentence built from
  \<^verbatim>\<open>knowledge[x]\<close> and \<^verbatim>\<open>knowledge[y]\<close>, appended when \<^verbatim>\<open>knowledge.count\<close> finds no equal
  one. The state of the scan is the list and the flag \<^verbatim>\<open>change\<close>.
\<close>

definition derive :: "sentence \<Rightarrow> sentence \<Rightarrow> sentence" where
  "derive s1 s2 =
     \<lparr>cells = (cells s2 - cells s1) \<union> (cells s1 - cells s2), count = \<bar>count s2 - count s1\<bar>\<rparr>"

definition pair_step :: "nat \<Rightarrow> nat \<Rightarrow> sentence list \<times> bool \<Rightarrow> sentence list \<times> bool" where
  "pair_step x y acc =
     (let kn = fst acc; s1 = kn ! x; s2 = kn ! y
      in if cells s2 \<subseteq> cells s1 \<or> cells s1 \<subseteq> cells s2
         then (if derive s1 s2 \<notin> set kn then (kn @ [derive s1 s2], True) else acc)
         else acc)"

text \<open>
  \<^verbatim>\<open>range(len(self.knowledge))\<close> is evaluated when its loop starts: once for \<^verbatim>\<open>x\<close>, and
  once for every \<^verbatim>\<open>x\<close> for \<^verbatim>\<open>y\<close>, so that \<^verbatim>\<open>y\<close> also reaches the sentences appended for
  earlier values of \<^verbatim>\<open>x\<close>. The list only grows, so every index read is in range.
\<close>

definition scan_row :: "nat \<Rightarrow> sentence list \<times> bool \<Rightarrow> sentence list \<times> bool" where
  "scan_row x acc = foldl (\<lambda>a y. pair_step x y a) acc [0 ..< length (fst acc)]"

definition scan_pairs :: "sentence list \<times> bool \<Rightarrow> sentence list \<times> bool" where
  "scan_pairs acc = foldl (\<lambda>a x. scan_row x a) acc [0 ..< length (fst acc)]"

text \<open>
  The two clean-up loops. For one sentence, removing every element that is in
  \<^verbatim>\<open>self.safes\<close> leaves the difference of the sets; removing every element that is in
  \<^verbatim>\<open>self.mines\<close> also lowers the count by one for each element removed.
\<close>

definition remove_safes :: "cell set \<Rightarrow> sentence \<Rightarrow> sentence" where
  "remove_safes sf s = s\<lparr>cells := cells s - sf\<rparr>"

definition remove_mines :: "cell set \<Rightarrow> sentence \<Rightarrow> sentence" where
  "remove_mines mn s = s\<lparr>cells := cells s - mn, count := count s - int (card (cells s \<inter> mn))\<rparr>"

definition cleanup :: "cell set \<Rightarrow> cell set \<Rightarrow> sentence list \<Rightarrow> sentence list" where
  "cleanup sf mn kn = map (remove_mines mn) (map (remove_safes sf) kn)"

text \<open>One run of the body of the \<^verbatim>\<open>while\<close> loop: the new value of \<^verbatim>\<open>change\<close> and the state.\<close>

definition infer_pass :: "ai \<Rightarrow> bool \<times> ai" where
  "infer_pass st =
     (let r = scan_pairs (knowledge st, False)
      in (snd r, st\<lparr>knowledge := cleanup (safes st) (mines st) (fst r)\<rparr>))"

text \<open>
  The \<^verbatim>\<open>while\<close> loop itself. Nothing in the source bounds the number of its runs, so the
  model is a partial function: \<open>None\<close> is a loop that never ends.
\<close>

partial_function (option) infer_loop :: "bool \<Rightarrow> ai \<Rightarrow> ai option" where
  "infer_loop change st =
     (if change \<and> length (knowledge st) \<noteq> 1
      then infer_loop (fst (infer_pass st)) (snd (infer_pass st))
      else Some st)"

declare infer_loop.simps [code]

text \<open>The last loop of \<^verbatim>\<open>add_knowledge\<close>, which only adds to \<^verbatim>\<open>self.mines\<close>.\<close>

definition mark_new_mines :: "sentence list \<Rightarrow> cell set \<Rightarrow> cell set" where
  "mark_new_mines kn mn =
     foldl (\<lambda>m s. if int (card (cells s)) = count s then m \<union> cells s else m) mn kn"

definition add_knowledge :: "cell \<Rightarrow> int \<Rightarrow> ai \<Rightarrow> ai option" where
  "add_knowledge c n st =
     (let st1 = st\<lparr>moves_made := insert c (moves_made st),
                   knowledge := map (sentence_mark_safe c) (knowledge st)\<rparr>;
          r = (if n \<noteq> 0
               then infer_loop True
                      (st1\<lparr>knowledge := knowledge st1 @ [\<lparr>cells = set (neighbours c), count = n\<rparr>]\<rparr>)
               else Some (st1\<lparr>safes := safes st1 \<union>
                      set (filter (\<lambda>t. fst t \<ge> 0 \<and> fst t \<le> 7 \<and> snd t \<ge> 0 \<and> snd t \<le> 7)
                             (neighbours c))\<rparr>))
      in case r of
           None \<Rightarrow> None
         | Some st2 \<Rightarrow> Some (st2\<lparr>mines := mark_new_mines (knowledge st2) (mines st2)\<rparr>))"

text \<open>
  \<^verbatim>\<open>make_safe_move\<close> walks \<^verbatim>\<open>list(self.safes)\<close>, whose order Python does not fix: the
  list \<open>l\<close> is that enumeration. The result is the returned value and the state.
\<close>

definition make_safe_move :: "cell list \<Rightarrow> ai \<Rightarrow> cell option \<times> ai" where
  "make_safe_move l st =
     (if card (safes st) > 1
      then (case find (\<lambda>e. e \<notin> moves_made st) l of
              Some e \<Rightarrow> (Some e, st\<lparr>moves_made := insert e (moves_made st)\<rparr>)
            | None \<Rightarrow> (None, st))
      else (None, st))"

subsection \<open>Sequences of calls\<close>

text \<open>
  The calls a driver can make on the engine, and a run of them one after the other. A call
  of \<^verbatim>\<open>add_knowledge\<close> whose loop does not end has no state after it, and neither has the
  run. \<^verbatim>\<open>make_safe_move\<close> comes with the enumeration of \<^verbatim>\<open>self.safes\<close> that the call sees.
\<close>

datatype op =
    Add_knowledge cell int
  | Mark_mine cell
  | Mark_safe cell
  | Make_safe_move "cell list"

fun exec_op :: "op \<Rightarrow> ai \<Rightarrow> ai option" where
  "exec_op (Add_knowledge c n) st = add_knowledge c n st"
| "exec_op (Mark_mine c) st = Some (mark_mine c st)"
| "exec_op (Mark_safe c) st = Some (mark_safe c st)"
| "exec_op (Make_safe_move l) st = Some (snd (make_safe_move l st))"

fun exec_ops :: "op list \<Rightarrow> ai \<Rightarrow> ai option" where
  "exec_ops [] st = Some st"
| "exec_ops (p # ps) st = (case exec_op p st of None \<Rightarrow> None | Some st' \<Rightarrow> exec_ops ps st')"

subsection \<open>Predicates used in the statements and proofs\<close>

text \<open>The test of the subsumption rule: one of the two cell sets is inside the other.\<close>

definition subsumes :: "sentence \<Rightarrow> sentence \<Rightarrow> bool" where
  "subsumes a b = (cells b \<subseteq> cells a \<or> cells a \<subseteq> cells b)"

definition derive_closed :: "(sentence \<Rightarrow> bool) \<Rightarrow> bool" where
  "derive_closed Q = (\<forall>a b. Q a \<longrightarrow> Q b \<longrightarrow> subsumes a b \<longrightarrow> Q (derive a b))"

text \<open>
  What a part of the scan does to its state: it appends sentences that were not in the
  list, each once, it leaves the old ones alone, and it raises the flag when it appends.
\<close>

definition extends :: "(sentence \<Rightarrow> bool) \<Rightarrow> sentence list \<times> bool \<Rightarrow> sentence list \<times> bool \<Rightarrow> bool" where
  "extends Q a b =
     (\<exists>ext. fst b = fst a @ ext \<and> distinct ext \<and> set ext \<inter> set (fst a) = {} \<and>
        ((\<forall>s\<in>set (fst a). Q s) \<longrightarrow> (\<forall>s\<in>set ext. Q s)) \<and>
        snd b = (snd a \<or> ext \<noteq> []))"

text \<open>A list of sentences to which the subsumption rule adds nothing.\<close>

definition closed :: "sentence list \<Rightarrow> bool" where
  "closed kn = (\<forall>a\<in>set kn. \<forall>b\<in>set kn. subsumes a b \<longrightarrow> derive a b \<in> set kn)"

text \<open>
  The mines that are on the board: the cells \<^verbatim>\<open>(i, j)\<close> inside the bounds for which
  \<^verbatim>\<open>board[i][j]\<close> is true. A sentence holds for a set of mines when its count is the
  number of its cells that are mines; the state of the engine is sound for it when every
  sentence holds, no safe cell is a mine and every cell of \<^verbatim>\<open>self.mines\<close> is one.
\<close>

definition layout :: "minesweeper \<Rightarrow> cell set" where
  "layout g =
     {c \<in> g_mines g. 0 \<le> fst c \<and> fst c < g_height g \<and> 0 \<le> snd c \<and> snd c < g_width g}"

definition holds :: "cell set \<Rightarrow> sentence \<Rightarrow> bool" where
  "holds T s = (finite (cells s) \<and> count s = int (card (cells s \<inter> T)))"

definition sound :: "cell set \<Rightarrow> ai \<Rightarrow> bool" where
  "sound T st =
     ((\<forall>s\<in>set (knowledge st). holds T s) \<and> safes st \<inter> T = {} \<and> mines st \<subseteq> T)"

text \<open>
  A call is consistent with a board when it tells the engine the truth about it:
  \<^verbatim>\<open>add_knowledge\<close> for a cell that is not a mine, with the count that \<^verbatim>\<open>nearby_mines\<close>
  gives, \<^verbatim>\<open>mark_mine\<close> for a mine and \<^verbatim>\<open>mark_safe\<close> for a cell that is not one.
\<close>

fun consistent :: "minesweeper \<Rightarrow> op \<Rightarrow> bool" where
  "consistent g (Add_knowledge c n) = (c \<notin> layout g \<and> n = nearby_mines g c)"
| "consistent g (Mark_mine c) = (c \<in> layout g)"
| "consistent g (Mark_safe c) = (c \<notin> layout g)"
| "consistent g (Make_safe_move l) = True"

text \<open>The sentences over a set of cells with a count between zero and a bound.\<close>

definition within :: "cell set \<Rightarrow> int \<Rightarrow> sentence \<Rightarrow> bool" where
  "within U k s = (cells s \<subseteq> U \<and> 0 \<le> count s \<and> count s \<le> k)"

text \<open>
  The state in which \<^verbatim>\<open>add_knowledge\<close> enters its loop: the move is recorded, the cell is
  removed from the sentences and the new sentence is appended.
\<close>

definition before_loop :: "cell \<Rightarrow> int \<Rightarrow> ai \<Rightarrow> ai" where
  "before_loop c n st =
     st\<lparr>moves_made := insert c (moves_made st),
        knowledge := map (sentence_mark_safe c) (knowledge st) @
          [\<lparr>cells = set (neighbours c), count = n\<rparr>]\<rparr>"

text \<open>
  The calls of \<^verbatim>\<open>add_knowledge\<close> a driver makes when it reveals the cells of a list on a
  board, each with the count that the board gives.
\<close>

definition observations :: "minesweeper \<Rightarrow> cell list \<Rightarrow> op list" where
  "observations g cs = map (\<lambda>c. Add_knowledge c (nearby_mines g c)) cs"

text \<open>States and runs used as examples.\<close>

definition board5 :: minesweeper where
  "board5 = \<lparr>g_height = 5, g_width = 5, g_mines = {(2, 2)}\<rparr>"

definition grow_start :: ai where
  "grow_start =
     \<lparr>height = 8, width = 8, moves_made = {(0, 0)}, mines = {},
      safes = {(0, 1), (1, 1), (1, 0)}, knowledge = [\<lparr>cells = {(2, 2), (1, 1)}, count = 1\<rparr>]\<rparr>"

definition grow_ops :: "op list" where
  "grow_ops = [Add_knowledge (0, 2) 1, Mark_mine (5, 5), Make_safe_move [(0, 1), (1, 1), (1, 0)]]"

section \<open>Properties of the scan over pairs\<close>

lemma foldl_invariant:
  "P a \<Longrightarrow> (\<And>b x. P b \<Longrightarrow> x \<in> set xs \<Longrightarrow> P (f b x)) \<Longrightarrow> P (foldl f a xs)"
  by (induction xs arbitrary: a) simp_all

lemma extends_refl: "extends Q a a"
  by (simp add: extends_def)

lemma extends_trans:
  assumes "extends Q a b" and "extends Q b c"
  shows "extends Q a c"
proof -
  from assms(1) obtain e1 where e1: "fst b = fst a @ e1" "distinct e1" "set e1 \<inter> set (fst a) = {}"
    "(\<forall>s\<in>set (fst a). Q s) \<longrightarrow> (\<forall>s\<in>set e1. Q s)" "snd b = (snd a \<or> e1 \<noteq> [])"
    unfolding extends_def by blast
  from assms(2) obtain e2 where e2: "fst c = fst b @ e2" "distinct e2" "set e2 \<inter> set (fst b) = {}"
    "(\<forall>s\<in>set (fst b). Q s) \<longrightarrow> (\<forall>s\<in>set e2. Q s)" "snd c = (snd b \<or> e2 \<noteq> [])"
    unfolding extends_def by blast
  have "fst c = fst a @ (e1 @ e2)" using e1(1) e2(1) by simp
  moreover have "distinct (e1 @ e2)" using e1(1,2) e2(2,3) by auto
  moreover have "set (e1 @ e2) \<inter> set (fst a) = {}" using e1(1,3) e2(3) by auto
  moreover have "(\<forall>s\<in>set (fst a). Q s) \<longrightarrow> (\<forall>s\<in>set (e1 @ e2). Q s)"
  proof
    assume qa: "\<forall>s\<in>set (fst a). Q s"
    then have q1: "\<forall>s\<in>set e1. Q s" using e1(4) by simp
    with qa have "\<forall>s\<in>set (fst b). Q s" using e1(1) by auto
    then have "\<forall>s\<in>set e2. Q s" using e2(4) by simp
    with q1 show "\<forall>s\<in>set (e1 @ e2). Q s" by auto
  qed
  moreover have "snd c = (snd a \<or> e1 @ e2 \<noteq> [])" using e1(5) e2(5) by auto
  ultimately show ?thesis unfolding extends_def by blast
qed

lemma extends_length: "extends Q a b \<Longrightarrow> length (fst a) \<le> length (fst b)"
  by (auto simp: extends_def)

lemma extends_nth: "extends Q a b \<Longrightarrow> i < length (fst a) \<Longrightarrow> fst b ! i = fst a ! i"
  by (auto simp: extends_def nth_append)

lemma extends_subset: "extends Q a b \<Longrightarrow> set (fst a) \<subseteq> set (fst b)"
  by (auto simp: extends_def)

lemma extends_unchanged: "extends Q a b \<Longrightarrow> \<not> snd b \<Longrightarrow> b = a"
  by (auto simp: extends_def prod_eq_iff)

lemma extends_all: "extends Q a b \<Longrightarrow> \<forall>s\<in>set (fst a). Q s \<Longrightarrow> \<forall>s\<in>set (fst b). Q s"
  by (auto simp: extends_def)

lemma pair_step_extends:
  assumes "derive_closed Q" "x < length (fst a)" "y < length (fst a)"
  shows "extends Q a (pair_step x y a)"
proof (cases "subsumes (fst a ! x) (fst a ! y) \<and> derive (fst a ! x) (fst a ! y) \<notin> set (fst a)")
  case True
  have "(\<forall>s\<in>set (fst a). Q s) \<longrightarrow> Q (derive (fst a ! x) (fst a ! y))"
    using assms True unfolding derive_closed_def by (meson nth_mem)
  with True show ?thesis
    unfolding extends_def pair_step_def subsumes_def Let_def
    by (intro exI[of _ "[derive (fst a ! x) (fst a ! y)]"]) auto
next
  case False
  then have "pair_step x y a = a"
    unfolding pair_step_def subsumes_def Let_def by auto
  then show ?thesis by (simp add: extends_refl)
qed

lemma pair_step_member:
  "subsumes (fst a ! x) (fst a ! y) \<Longrightarrow> derive (fst a ! x) (fst a ! y) \<in> set (fst (pair_step x y a))"
  unfolding pair_step_def subsumes_def Let_def by auto

lemma scan_row_prefix_extends:
  assumes "derive_closed Q" "x < length (fst a)" "m \<le> length (fst a)"
  shows "extends Q a (foldl (\<lambda>b y. pair_step x y b) a [0 ..< m])"
proof (rule foldl_invariant)
  show "extends Q a a" by (rule extends_refl)
next
  fix b y assume b: "extends Q a b" and "y \<in> set [0 ..< m]"
  then have "x < length (fst b)" "y < length (fst b)"
    using assms(2,3) extends_length[OF b] by auto
  then show "extends Q a (pair_step x y b)"
    using extends_trans[OF b pair_step_extends[OF assms(1)]] by blast
qed

lemma scan_row_extends:
  "derive_closed Q \<Longrightarrow> x < length (fst a) \<Longrightarrow> extends Q a (scan_row x a)"
  unfolding scan_row_def by (rule scan_row_prefix_extends) simp_all

lemma scan_pairs_extends:
  assumes "derive_closed Q"
  shows "extends Q a (scan_pairs a)"
  unfolding scan_pairs_def
proof (rule foldl_invariant)
  show "extends Q a a" by (rule extends_refl)
next
  fix b x assume b: "extends Q a b" and "x \<in> set [0 ..< length (fst a)]"
  then have "x < length (fst b)" using extends_length[OF b] by auto
  then show "extends Q a (scan_row x b)"
    using extends_trans[OF b scan_row_extends[OF assms]] by blast
qed

lemma derive_closed_True: "derive_closed (\<lambda>_. True)"
  by (simp add: derive_closed_def)

text \<open>
  Every pair of indices of the list the scan starts from is visited, and what is appended
  stays in the list, so the sentence derived from a pair is in the list the scan ends with.
\<close>

lemma scan_row_prefix_complete:
  assumes "x < length (fst a)" "m \<le> length (fst a)"
  shows "\<forall>y<m. subsumes (fst a ! x) (fst a ! y) \<longrightarrow>
           derive (fst a ! x) (fst a ! y) \<in> set (fst (foldl (\<lambda>b y. pair_step x y b) a [0 ..< m]))"
  using assms(2)
proof (induction m)
  case 0
  then show ?case by simp
next
  case (Suc m)
  let ?b = "foldl (\<lambda>b y. pair_step x y b) a [0 ..< m]"
  have ext: "extends (\<lambda>_. True) a ?b"
    using scan_row_prefix_extends[OF derive_closed_True assms(1)] Suc.prems by simp
  have m: "m < length (fst a)" using Suc.prems by simp
  have step: "extends (\<lambda>_. True) ?b (pair_step x m ?b)"
    using pair_step_extends[OF derive_closed_True] extends_length[OF ext] assms(1) m by simp
  have eq: "fst ?b ! x = fst a ! x" "fst ?b ! m = fst a ! m"
    using extends_nth[OF ext] assms(1) m by simp_all
  show ?case
  proof (intro allI impI)
    fix y assume y: "y < Suc m" and s: "subsumes (fst a ! x) (fst a ! y)"
    show "derive (fst a ! x) (fst a ! y) \<in> set (fst (foldl (\<lambda>b y. pair_step x y b) a [0 ..< Suc m]))"
    proof (cases "y = m")
      case True
      then show ?thesis using pair_step_member[of ?b x m] s eq by simp
    next
      case False
      then have "derive (fst a ! x) (fst a ! y) \<in> set (fst ?b)"
        using Suc.IH y s Suc.prems by simp
      then show ?thesis using extends_subset[OF step] by auto
    qed
  qed
qed

lemma scan_row_complete:
  "x < length (fst a) \<Longrightarrow> y < length (fst a) \<Longrightarrow> subsumes (fst a ! x) (fst a ! y) \<Longrightarrow>
     derive (fst a ! x) (fst a ! y) \<in> set (fst (scan_row x a))"
  unfolding scan_row_def using scan_row_prefix_complete[of x a "length (fst a)"] by simp

lemma scan_pairs_prefix_extends:
  assumes "derive_closed Q" "n \<le> length (fst a)"
  shows "extends Q a (foldl (\<lambda>b x. scan_row x b) a [0 ..< n])"
proof (rule foldl_invariant)
  show "extends Q a a" by (rule extends_refl)
next
  fix b x assume b: "extends Q a b" and "x \<in> set [0 ..< n]"
  then have "x < length (fst b)" using extends_length[OF b] assms(2) by auto
  then show "extends Q a (scan_row x b)"
    using extends_trans[OF b scan_row_extends[OF assms(1)]] by blast
qed

lemma scan_pairs_prefix_complete:
  assumes "n \<le> length (fst a)"
  shows "\<forall>x<n. \<forall>y<length (fst a). subsumes (fst a ! x) (fst a ! y) \<longrightarrow>
           derive (fst a ! x) (fst a ! y) \<in> set (fst (foldl (\<lambda>b x. scan_row x b) a [0 ..< n]))"
  using assms
proof (induction n)
  case 0
  then show ?case by simp
next
  case (Suc n)
  let ?b = "foldl (\<lambda>b x. scan_row x b) a [0 ..< n]"
  have ext: "extends (\<lambda>_. True) a ?b"
    using scan_pairs_prefix_extends[OF derive_closed_True] Suc.prems by simp
  have n: "n < length (fst a)" using Suc.prems by simp
  then have nb: "n < length (fst ?b)" using extends_length[OF ext] by simp
  have step: "extends (\<lambda>_. True) ?b (scan_row n ?b)"
    using scan_row_extends[OF derive_closed_True nb] .
  show ?case
  proof (intro allI impI)
    fix x y assume x: "x < Suc n" and y: "y < length (fst a)"
      and s: "subsumes (fst a ! x) (fst a ! y)"
    show "derive (fst a ! x) (fst a ! y) \<in> set (fst (foldl (\<lambda>b x. scan_row x b) a [0 ..< Suc n]))"
    proof (cases "x = n")
      case True
      have "fst ?b ! n = fst a ! n" "fst ?b ! y = fst a ! y"
        using extends_nth[OF ext] n y by simp_all
      moreover have "y < length (fst ?b)" using y extends_length[OF ext] by simp
      ultimately show ?thesis using scan_row_complete[OF nb, of y] s True by simp
    next
      case False
      then have "derive (fst a ! x) (fst a ! y) \<in> set (fst ?b)"
        using Suc.IH x y s Suc.prems by simp
      then show ?thesis using extends_subset[OF step] by auto
    qed
  qed
qed

lemma scan_pairs_complete:
  assumes "s1 \<in> set (fst a)" "s2 \<in> set (fst a)" "subsumes s1 s2"
  shows "derive s1 s2 \<in> set (fst (scan_pairs a))"
proof -
  from assms(1,2) obtain x y where "x < length (fst a)" "fst a ! x = s1"
    "y < length (fst a)" "fst a ! y = s2"
    by (meson in_set_conv_nth)
  then show ?thesis
    using scan_pairs_prefix_complete[of "length (fst a)" a] assms(3)
    unfolding scan_pairs_def by auto
qed

lemma derive_subset:
  "cells a \<subseteq> cells b \<Longrightarrow>
     derive a b = \<lparr>cells = cells b - cells a, count = \<bar>count b - count a\<bar>\<rparr> \<and>
     derive b a = \<lparr>cells = cells b - cells a, count = \<bar>count b - count a\<bar>\<rparr>"
  by (auto simp: derive_def)

section \<open>The loop and the sets of the engine\<close>

text \<open>
  A property that one run of the body keeps holds when the loop ends, if it ends. The rule
  says nothing about whether it ends.
\<close>

lemma infer_loop_invariant:
  assumes "infer_loop ch st = Some r" and "I st"
    and "\<And>s. I s \<Longrightarrow> length (knowledge s) \<noteq> 1 \<Longrightarrow> I (snd (infer_pass s))"
  shows "I r"
  using assms(2)
proof (induction rule: infer_loop.raw_induct[OF _ assms(1)])
  case (1 loop ch st r)
  show ?case
  proof (cases "ch \<and> length (knowledge st) \<noteq> 1")
    case True
    then have "loop (fst (infer_pass st)) (snd (infer_pass st)) = Some r"
      using "1.hyps" by simp
    moreover have "I (snd (infer_pass st))" using assms(3) "1.prems" True by simp
    ultimately show ?thesis using "1.IH" by blast
  next
    case False
    then show ?thesis using "1.hyps" "1.prems" by auto
  qed
qed

lemma infer_pass_frame:
  "safes (snd (infer_pass st)) = safes st \<and> mines (snd (infer_pass st)) = mines st \<and>
   moves_made (snd (infer_pass st)) = moves_made st \<and>
   height (snd (infer_pass st)) = height st \<and> width (snd (infer_pass st)) = width st"
  by (simp add: infer_pass_def Let_def)

lemma infer_loop_frame:
  assumes "infer_loop ch st = Some r"
  shows "safes r = safes st \<and> mines r = mines st \<and> moves_made r = moves_made st \<and>
         height r = height st \<and> width r = width st"
  by (rule infer_loop_invariant[OF assms, where I = "\<lambda>s. safes s = safes st \<and> mines s = mines st \<and>
        moves_made s = moves_made st \<and> height s = height st \<and> width s = width st"])
     (simp_all add: infer_pass_frame)

lemma mark_new_mines_superset: "mn \<subseteq> mark_new_mines kn mn"
  unfolding mark_new_mines_def
  by (rule foldl_invariant[where P = "\<lambda>m. mn \<subseteq> m"]) auto

lemma add_knowledge_grows:
  assumes "add_knowledge c n st = Some st'"
  shows "safes st \<subseteq> safes st' \<and> mines st \<subseteq> mines st' \<and> moves_made st \<subseteq> moves_made st'"
proof (cases "n = 0")
  case True
  then show ?thesis using assms
    by (auto simp: add_knowledge_def Let_def dest: subsetD[OF mark_new_mines_superset])
next
  case False
  let ?e = "st\<lparr>moves_made := insert c (moves_made st),
                knowledge := map (sentence_mark_safe c) (knowledge st) @
                  [\<lparr>cells = set (neighbours c), count = n\<rparr>]\<rparr>"
  from assms False obtain r where r: "infer_loop True ?e = Some r"
    and st': "st' = r\<lparr>mines := mark_new_mines (knowledge r) (mines r)\<rparr>"
    by (auto simp: add_knowledge_def Let_def split: option.splits)
  from infer_loop_frame[OF r] have "safes r = safes st" "mines r = mines st"
    "moves_made r = insert c (moves_made st)" by simp_all
  then show ?thesis using st' mark_new_mines_superset[of "mines r" "knowledge r"] by auto
qed

lemma exec_op_grows:
  assumes "exec_op p st = Some st'"
  shows "safes st \<subseteq> safes st' \<and> mines st \<subseteq> mines st' \<and> moves_made st \<subseteq> moves_made st'"
proof (cases p)
  case (Add_knowledge c n)
  then show ?thesis using assms add_knowledge_grows by simp
next
  case (Mark_mine c)
  then show ?thesis using assms by (auto simp: mark_mine_def)
next
  case (Mark_safe c)
  then show ?thesis using assms by (auto simp: mark_safe_def)
next
  case (Make_safe_move l)
  then show ?thesis using assms by (auto simp: make_safe_move_def split: option.splits)
qed

section \<open>Sentences that hold for a set of mines\<close>

text \<open>The count of \<^verbatim>\<open>nearby_mines\<close> is the number of mines among the eight neighbours.\<close>

lemma window_eq:
  "window (i, j) = [(i - 1, j - 1), (i - 1, j), (i - 1, j + 1),
                    (i, j - 1), (i, j), (i, j + 1),
                    (i + 1, j - 1), (i + 1, j), (i + 1, j + 1)]"
proof -
  have u: "\<And>k::int. [k - 1 .. k + 1] = [k - 1, k, k + 1]"
    by (simp add: upto_rec1)
  show ?thesis unfolding window_def by (simp add: u)
qed

lemma length_filter_card: "distinct xs \<Longrightarrow> length (filter P xs) = card {x \<in> set xs. P x}"
  by (metis distinct_card distinct_filter set_filter)

lemma nearby_mines_card: "nearby_mines g c = int (card (set (neighbours c) \<inter> layout g))"
proof -
  obtain i j where c: "c = (i, j)" by (cases c)
  have d: "distinct (window (i, j))" by (simp add: window_eq)
  have "{x \<in> set (window (i, j)). (case x of (a, b) \<Rightarrow> (a, b) \<noteq> (i, j) \<and> 0 \<le> a \<and> a < g_height g \<and>
            0 \<le> b \<and> b < g_width g \<and> (a, b) \<in> g_mines g)} = set (neighbours (i, j)) \<inter> layout g"
    by (auto simp: window_eq neighbours_def layout_def)
  then show ?thesis
    unfolding nearby_mines_def c length_filter_card[OF d] by simp
qed

lemma holds_mark_safe: "holds T s \<Longrightarrow> c \<notin> T \<Longrightarrow> holds T (sentence_mark_safe c s)"
proof -
  assume h: "holds T s" and c: "c \<notin> T"
  have "(cells s - {c}) \<inter> T = cells s \<inter> T" using c by auto
  then show ?thesis using h by (simp add: holds_def sentence_mark_safe_def)
qed

lemma holds_mark_mine: "holds T s \<Longrightarrow> c \<in> T \<Longrightarrow> holds T (sentence_mark_mine c s)"
proof -
  assume h: "holds T s" and c: "c \<in> T"
  show ?thesis
  proof (cases "c \<in> cells s")
    case True
    have e: "(cells s - {c}) \<inter> T = (cells s \<inter> T) - {c}" by auto
    have m: "c \<in> cells s \<inter> T" and f: "finite (cells s \<inter> T)"
      using True c h by (auto simp: holds_def)
    have "card (cells s \<inter> T) > 0" using m f card_gt_0_iff by blast
    moreover have "card ((cells s \<inter> T) - {c}) = card (cells s \<inter> T) - 1"
      using m f by simp
    ultimately have "card ((cells s \<inter> T) - {c}) = card (cells s \<inter> T) - 1" "card (cells s \<inter> T) \<ge> 1"
      by simp_all
    then show ?thesis using h True e by (simp add: holds_def sentence_mark_mine_def)
  next
    case False
    then show ?thesis using h by (simp add: sentence_mark_mine_def)
  qed
qed

lemma holds_derive:
  assumes "holds T a" and "holds T b" and "subsumes a b"
  shows "holds T (derive a b)"
proof -
  have sym: "\<And>a b. holds T a \<Longrightarrow> holds T b \<Longrightarrow> cells a \<subseteq> cells b \<Longrightarrow>
     finite (cells b - cells a) \<and> \<bar>count b - count a\<bar> = int (card ((cells b - cells a) \<inter> T))"
  proof -
    fix a b assume a: "holds T a" and b: "holds T b" and ab: "cells a \<subseteq> cells b"
    have e: "(cells b - cells a) \<inter> T = (cells b \<inter> T) - (cells a \<inter> T)" by auto
    have sub: "cells a \<inter> T \<subseteq> cells b \<inter> T" using ab by auto
    have fin: "finite (cells b \<inter> T)" "finite (cells a \<inter> T)" using a b by (auto simp: holds_def)
    have "card ((cells b \<inter> T) - (cells a \<inter> T)) = card (cells b \<inter> T) - card (cells a \<inter> T)"
      using card_Diff_subset[OF fin(2) sub] .
    moreover have "card (cells a \<inter> T) \<le> card (cells b \<inter> T)" using card_mono[OF fin(1) sub] .
    ultimately show "finite (cells b - cells a) \<and>
        \<bar>count b - count a\<bar> = int (card ((cells b - cells a) \<inter> T))"
      using a b e by (simp add: holds_def)
  qed
  from assms(3) consider "cells a \<subseteq> cells b" | "cells b \<subseteq> cells a" by (auto simp: subsumes_def)
  then show ?thesis
  proof cases
    case 1
    then have "derive a b = \<lparr>cells = cells b - cells a, count = \<bar>count b - count a\<bar>\<rparr>"
      using derive_subset by simp
    then show ?thesis using sym[OF assms(1,2) 1] by (simp add: holds_def)
  next
    case 2
    then have "derive a b = \<lparr>cells = cells a - cells b, count = \<bar>count a - count b\<bar>\<rparr>"
      using derive_subset by simp
    then show ?thesis using sym[OF assms(2,1) 2] by (simp add: holds_def)
  qed
qed

lemma derive_closed_holds: "derive_closed (holds T)"
  unfolding derive_closed_def using holds_derive by blast

lemma holds_remove_safes: "holds T s \<Longrightarrow> sf \<inter> T = {} \<Longrightarrow> holds T (remove_safes sf s)"
proof -
  assume h: "holds T s" and d: "sf \<inter> T = {}"
  have "(cells s - sf) \<inter> T = cells s \<inter> T" using d by auto
  then show ?thesis using h by (simp add: holds_def remove_safes_def)
qed

lemma holds_remove_mines: "holds T s \<Longrightarrow> mn \<subseteq> T \<Longrightarrow> holds T (remove_mines mn s)"
proof -
  assume h: "holds T s" and m: "mn \<subseteq> T"
  have e: "(cells s - mn) \<inter> T = (cells s \<inter> T) - (cells s \<inter> mn)" by auto
  have sub: "cells s \<inter> mn \<subseteq> cells s \<inter> T" using m by auto
  have fin: "finite (cells s \<inter> T)" "finite (cells s \<inter> mn)" using h by (auto simp: holds_def)
  have "card ((cells s \<inter> T) - (cells s \<inter> mn)) = card (cells s \<inter> T) - card (cells s \<inter> mn)"
    using card_Diff_subset[OF fin(2) sub] .
  moreover have "card (cells s \<inter> mn) \<le> card (cells s \<inter> T)" using card_mono[OF fin(1) sub] .
  ultimately show ?thesis using h e by (simp add: holds_def remove_mines_def)
qed

lemma holds_bounds: "holds T s \<Longrightarrow> 0 \<le> count s \<and> count s \<le> int (card (cells s))"
  by (simp add: holds_def card_mono)

lemma holds_all_mines: "holds T s \<Longrightarrow> int (card (cells s)) = count s \<Longrightarrow> cells s \<subseteq> T"
proof -
  assume h: "holds T s" and e: "int (card (cells s)) = count s"
  then have "card (cells s \<inter> T) = card (cells s)" "finite (cells s)" by (simp_all add: holds_def)
  then have "cells s \<inter> T = cells s" by (intro card_subset_eq) auto
  then show ?thesis by auto
qed

text \<open>Every step of \<^verbatim>\<open>add_knowledge\<close> keeps a sound state sound.\<close>

lemma cleanup_holds:
  assumes "\<forall>s\<in>set kn. holds T s" and "sf \<inter> T = {}" and "mn \<subseteq> T"
  shows "\<forall>s\<in>set (cleanup sf mn kn). holds T s"
  using assms by (auto simp: cleanup_def intro!: holds_remove_mines holds_remove_safes)

lemma cleanup_clean:
  "\<forall>s\<in>set (cleanup sf mn kn). cells s \<inter> sf = {} \<and> cells s \<inter> mn = {}"
  by (auto simp: cleanup_def remove_mines_def remove_safes_def)

lemma infer_pass_knowledge:
  "knowledge (snd (infer_pass st)) =
     cleanup (safes st) (mines st) (fst (scan_pairs (knowledge st, False)))"
  by (simp add: infer_pass_def Let_def)

lemma infer_pass_change: "fst (infer_pass st) = snd (scan_pairs (knowledge st, False))"
  by (simp add: infer_pass_def Let_def)

lemma scan_pairs_all:
  "derive_closed Q \<Longrightarrow> \<forall>s\<in>set kn. Q s \<Longrightarrow> \<forall>s\<in>set (fst (scan_pairs (kn, ch))). Q s"
  using extends_all[OF scan_pairs_extends, of Q "(kn, ch)"] by simp

lemma infer_pass_sound:
  assumes "sound T st"
  shows "sound T (snd (infer_pass st))"
proof -
  have "\<forall>s\<in>set (knowledge st). holds T s" using assms by (simp add: sound_def)
  then have "\<forall>s\<in>set (fst (scan_pairs (knowledge st, False))). holds T s"
    by (rule scan_pairs_all[OF derive_closed_holds])
  moreover have "safes st \<inter> T = {}" and "mines st \<subseteq> T" using assms by (simp_all add: sound_def)
  ultimately have "\<forall>s\<in>set (knowledge (snd (infer_pass st))). holds T s"
    unfolding infer_pass_knowledge by (rule cleanup_holds)
  then show ?thesis using assms infer_pass_frame[of st] by (simp add: sound_def)
qed

lemma infer_loop_sound:
  assumes "infer_loop ch st = Some r" and "sound T st"
  shows "sound T r"
  using infer_loop_invariant[OF assms(1), where I = "sound T"] assms(2) infer_pass_sound by blast

lemma mark_new_mines_sound:
  assumes "\<forall>s\<in>set kn. holds T s" and "mn \<subseteq> T"
  shows "mark_new_mines kn mn \<subseteq> T"
  unfolding mark_new_mines_def
proof (rule foldl_invariant[where P = "\<lambda>m. m \<subseteq> T"])
  show "mn \<subseteq> T" by (rule assms(2))
next
  fix m s assume "m \<subseteq> T" and "s \<in> set kn"
  then show "(if int (card (cells s)) = count s then m \<union> cells s else m) \<subseteq> T"
    using assms(1) holds_all_mines by auto
qed

lemma sound_mark_new_mines:
  "sound T st \<Longrightarrow> sound T (st\<lparr>mines := mark_new_mines (knowledge st) (mines st)\<rparr>)"
  using mark_new_mines_sound[of "knowledge st" T "mines st"] by (simp add: sound_def)

lemma holds_new_sentence:
  "holds (layout g) \<lparr>cells = set (neighbours c), count = nearby_mines g c\<rparr>"
  by (simp add: holds_def nearby_mines_card)

text \<open>The two branches of \<^verbatim>\<open>add_knowledge\<close>.\<close>

lemma add_knowledge_nonzero:
  "n \<noteq> 0 \<Longrightarrow> add_knowledge c n st =
     (case infer_loop True
             (st\<lparr>moves_made := insert c (moves_made st),
                 knowledge := map (sentence_mark_safe c) (knowledge st) @
                   [\<lparr>cells = set (neighbours c), count = n\<rparr>]\<rparr>) of
        None \<Rightarrow> None
      | Some r \<Rightarrow> Some (r\<lparr>mines := mark_new_mines (knowledge r) (mines r)\<rparr>))"
  by (simp add: add_knowledge_def Let_def)

lemma add_knowledge_zero:
  "add_knowledge c 0 st =
     Some (st\<lparr>moves_made := insert c (moves_made st),
              knowledge := map (sentence_mark_safe c) (knowledge st),
              safes := safes st \<union> {t \<in> set (neighbours c). 0 \<le> fst t \<and> fst t \<le> 7 \<and> 0 \<le> snd t \<and> snd t \<le> 7},
              mines := mark_new_mines (map (sentence_mark_safe c) (knowledge st)) (mines st)\<rparr>)"
  by (simp add: add_knowledge_def Let_def)

lemma sound_entry:
  assumes "sound (layout g) st" and "c \<notin> layout g"
  shows "sound (layout g) (st\<lparr>moves_made := insert c (moves_made st),
                 knowledge := map (sentence_mark_safe c) (knowledge st) @
                   [\<lparr>cells = set (neighbours c), count = nearby_mines g c\<rparr>]\<rparr>)"
  using assms holds_new_sentence[of g c] by (auto simp: sound_def intro: holds_mark_safe)

lemma neighbours_no_mines:
  assumes "nearby_mines g c = 0"
  shows "set (neighbours c) \<inter> layout g = {}"
proof -
  have "finite (set (neighbours c) \<inter> layout g)" by simp
  moreover have "card (set (neighbours c) \<inter> layout g) = 0"
    using assms nearby_mines_card[of g c] by simp
  ultimately show ?thesis by (simp only: card_0_eq)
qed

lemma add_knowledge_sound:
  assumes "sound (layout g) st" and "c \<notin> layout g"
    and "add_knowledge c (nearby_mines g c) st = Some st'"
  shows "sound (layout g) st'"
proof (cases "nearby_mines g c = 0")
  case True
  let ?kn = "map (sentence_mark_safe c) (knowledge st)"
  have k: "\<forall>s\<in>set ?kn. holds (layout g) s"
    using assms(1,2) by (auto simp: sound_def intro: holds_mark_safe)
  have m: "mark_new_mines ?kn (mines st) \<subseteq> layout g"
    using mark_new_mines_sound[OF k] assms(1) by (simp add: sound_def)
  have s: "(safes st \<union> {t \<in> set (neighbours c). 0 \<le> fst t \<and> fst t \<le> 7 \<and> 0 \<le> snd t \<and> snd t \<le> 7})
             \<inter> layout g = {}"
    using neighbours_no_mines[OF True] assms(1) by (auto simp: sound_def)
  have "st' = st\<lparr>moves_made := insert c (moves_made st), knowledge := ?kn,
              safes := safes st \<union> {t \<in> set (neighbours c). 0 \<le> fst t \<and> fst t \<le> 7 \<and> 0 \<le> snd t \<and> snd t \<le> 7},
              mines := mark_new_mines ?kn (mines st)\<rparr>"
    using assms(3) True add_knowledge_zero[of c st] by simp
  then show ?thesis using k m s by (simp add: sound_def)
next
  case False
  from assms(3) obtain r where r: "infer_loop True
             (st\<lparr>moves_made := insert c (moves_made st),
                 knowledge := map (sentence_mark_safe c) (knowledge st) @
                   [\<lparr>cells = set (neighbours c), count = nearby_mines g c\<rparr>]\<rparr>) = Some r"
    and st': "st' = r\<lparr>mines := mark_new_mines (knowledge r) (mines r)\<rparr>"
    unfolding add_knowledge_nonzero[OF False] by (auto split: option.splits)
  have "sound (layout g) r" using infer_loop_sound[OF r sound_entry[OF assms(1,2)]] .
  then show ?thesis unfolding st' by (rule sound_mark_new_mines)
qed

section \<open>The loop ends on a sound state\<close>

text \<open>
  Inside the loop \<^verbatim>\<open>self.safes\<close> and \<^verbatim>\<open>self.mines\<close> do not change, so after the first
  clean-up no sentence holds a cell of either and later clean-ups change nothing. When,
  besides, the counts are between zero and a bound, every run that sets \<^verbatim>\<open>change\<close> adds
  a sentence over the same finite set of cells that was not in the list: this can happen
  only finitely often.
\<close>

lemma finite_within:
  assumes "finite U"
  shows "finite {s. within U k s}"
proof -
  have "{s. within U k s} \<subseteq> (\<lambda>(c, n). \<lparr>cells = c, count = n\<rparr>) ` (Pow U \<times> {0 .. k})"
  proof
    fix s assume "s \<in> {s. within U k s}"
    then have "(cells s, count s) \<in> Pow U \<times> {0 .. k}" by (simp add: within_def)
    moreover have "s = (\<lambda>(c, n). \<lparr>cells = c, count = n\<rparr>) (cells s, count s)" by simp
    ultimately show "s \<in> (\<lambda>(c, n). \<lparr>cells = c, count = n\<rparr>) ` (Pow U \<times> {0 .. k})"
      by (rule rev_image_eqI)
  qed
  moreover have "finite ((\<lambda>(c, n). \<lparr>cells = c, count = n\<rparr>) ` (Pow U \<times> {0 .. k}))"
    using assms by simp
  ultimately show ?thesis by (rule finite_subset)
qed

lemma derive_closed_within: "derive_closed (within U k)"
  unfolding derive_closed_def within_def derive_def by auto

lemma cleanup_within:
  assumes "\<forall>s\<in>set kn. within U k s" and "U \<inter> sf = {}" and "U \<inter> mn = {}"
  shows "cleanup sf mn kn = kn"
proof -
  have "\<And>s. s \<in> set kn \<Longrightarrow> remove_mines mn (remove_safes sf s) = s"
  proof -
    fix s assume "s \<in> set kn"
    then have "cells s \<subseteq> U" using assms(1) by (simp add: within_def)
    then have "cells s - sf = cells s" "cells s - mn = cells s" "cells s \<inter> mn = {}"
      using assms(2,3) by auto
    then show "remove_mines mn (remove_safes sf s) = s"
      by (simp add: remove_mines_def remove_safes_def)
  qed
  then show ?thesis unfolding cleanup_def by (simp add: map_idI)
qed

lemma scan_pairs_changed:
  assumes "snd (scan_pairs (kn, False))"
  shows "set kn \<subset> set (fst (scan_pairs (kn, False)))"
proof -
  from scan_pairs_extends[OF derive_closed_True, of "(kn, False)"]
  obtain ext where e: "fst (scan_pairs (kn, False)) = kn @ ext" "set ext \<inter> set kn = {}"
    "snd (scan_pairs (kn, False)) = (ext \<noteq> [])"
    unfolding extends_def by auto
  then obtain x where "x \<in> set ext" using assms by (cases ext) auto
  then have "x \<in> set (kn @ ext)" "x \<notin> set kn" using e(2) by auto
  then show ?thesis unfolding e(1) by auto
qed

lemma scan_pairs_unchanged:
  assumes "\<not> snd (scan_pairs (kn, False))"
  shows "scan_pairs (kn, False) = (kn, False)"
  using extends_unchanged[OF scan_pairs_extends[OF derive_closed_True] assms] .

lemma infer_loop_ends_within:
  assumes "finite U" and "U \<inter> safes st = {}" and "U \<inter> mines st = {}"
    and "\<forall>s\<in>set (knowledge st). within U k s"
  shows "\<exists>r. infer_loop ch st = Some r"
  using assms(2-)
proof (induction "card ({s. within U k s} - set (knowledge st))" arbitrary: st ch rule: less_induct)
  case less
  show ?case
  proof (cases "ch \<and> length (knowledge st) \<noteq> 1")
    case False
    then show ?thesis by (subst infer_loop.simps) auto
  next
    case True
    let ?st' = "snd (infer_pass st)" and ?ch' = "fst (infer_pass st)"
    let ?kn' = "fst (scan_pairs (knowledge st, False))"
    have step: "infer_loop ch st = infer_loop ?ch' ?st'"
      using True by (subst infer_loop.simps) simp
    have w': "\<forall>s\<in>set ?kn'. within U k s"
      using less.prems(3) by (rule scan_pairs_all[OF derive_closed_within])
    then have kn': "knowledge ?st' = ?kn'"
      unfolding infer_pass_knowledge using less.prems(1,2) by (rule cleanup_within)
    show ?thesis
    proof (cases ?ch')
      case False
      then show ?thesis unfolding step by (subst infer_loop.simps) simp
    next
      case True
      then have "set (knowledge st) \<subset> set ?kn'"
        unfolding infer_pass_change by (rule scan_pairs_changed)
      moreover have "set ?kn' \<subseteq> {s. within U k s}" using w' by auto
      ultimately have "{s. within U k s} - set ?kn' \<subset> {s. within U k s} - set (knowledge st)"
        by auto
      then have "card ({s. within U k s} - set (knowledge ?st')) <
                 card ({s. within U k s} - set (knowledge st))"
        unfolding kn' using finite_within[OF assms(1), of k] by (intro psubset_card_mono) auto
      moreover have "U \<inter> safes ?st' = {}" "U \<inter> mines ?st' = {}"
        using less.prems(1,2) infer_pass_frame[of st] by simp_all
      moreover have "\<forall>s\<in>set (knowledge ?st'). within U k s" using w' kn' by simp
      ultimately show ?thesis unfolding step using less.hyps by blast
    qed
  qed
qed

lemma infer_loop_ends:
  assumes "sound T st"
  shows "\<exists>r. infer_loop ch st = Some r"
proof (cases "ch \<and> length (knowledge st) \<noteq> 1")
  case False
  then show ?thesis by (subst infer_loop.simps) auto
next
  case True
  let ?st' = "snd (infer_pass st)" and ?ch' = "fst (infer_pass st)"
  let ?U = "\<Union>s\<in>set (knowledge ?st'). cells s"
  have step: "infer_loop ch st = infer_loop ?ch' ?st'"
    using True by (subst infer_loop.simps) simp
  have s': "sound T ?st'" using assms by (rule infer_pass_sound)
  then have h: "\<forall>s\<in>set (knowledge ?st'). holds T s" by (simp add: sound_def)
  then have fin: "finite ?U" by (auto simp: holds_def)
  have clean: "\<forall>s\<in>set (knowledge ?st'). cells s \<inter> safes st = {} \<and> cells s \<inter> mines st = {}"
    unfolding infer_pass_knowledge by (rule cleanup_clean)
  then have d: "?U \<inter> safes ?st' = {}" "?U \<inter> mines ?st' = {}"
    using infer_pass_frame[of st] by auto
  have "\<forall>s\<in>set (knowledge ?st'). within ?U (int (card ?U)) s"
  proof
    fix s assume s: "s \<in> set (knowledge ?st')"
    then have sub: "cells s \<subseteq> ?U" by auto
    have "count s \<le> int (card (cells s))" "0 \<le> count s" using holds_bounds h s by auto
    moreover have "card (cells s) \<le> card ?U" using card_mono[OF fin sub] .
    ultimately show "within ?U (int (card ?U)) s" using sub by (simp add: within_def)
  qed
  then show ?thesis unfolding step using infer_loop_ends_within[OF fin d] by blast
qed

section \<open>Runs of calls that are consistent with a board\<close>

text \<open>
  On a sound state a call of \<^verbatim>\<open>add_knowledge\<close> with what the board says returns, and every
  consistent call leaves a sound state.
\<close>

lemma add_knowledge_returns:
  assumes "sound (layout g) st" and "c \<notin> layout g"
  shows "\<exists>st'. add_knowledge c (nearby_mines g c) st = Some st'"
proof (cases "nearby_mines g c = 0")
  case True
  then show ?thesis using add_knowledge_zero[of c st] by simp
next
  case False
  obtain r where "infer_loop True
             (st\<lparr>moves_made := insert c (moves_made st),
                 knowledge := map (sentence_mark_safe c) (knowledge st) @
                   [\<lparr>cells = set (neighbours c), count = nearby_mines g c\<rparr>]\<rparr>) = Some r"
    using infer_loop_ends[OF sound_entry[OF assms]] by blast
  then show ?thesis unfolding add_knowledge_nonzero[OF False] by simp
qed

lemma sound_init: "sound T (init_ai h w)"
  by (simp add: sound_def init_ai_def)

lemma mark_mine_sound: "sound T st \<Longrightarrow> c \<in> T \<Longrightarrow> sound T (mark_mine c st)"
  by (auto simp: sound_def mark_mine_def intro: holds_mark_mine)

lemma mark_safe_sound: "sound T st \<Longrightarrow> c \<notin> T \<Longrightarrow> sound T (mark_safe c st)"
  by (auto simp: sound_def mark_safe_def intro: holds_mark_safe)

lemma make_safe_move_sound: "sound T st \<Longrightarrow> sound T (snd (make_safe_move l st))"
  by (auto simp: sound_def make_safe_move_def split: option.splits)

lemma exec_op_sound:
  assumes "consistent g p" and "sound (layout g) st"
  shows "\<exists>st'. exec_op p st = Some st' \<and> sound (layout g) st'"
proof (cases p)
  case (Add_knowledge c n)
  then have c: "c \<notin> layout g" and n: "n = nearby_mines g c" using assms(1) by simp_all
  from add_knowledge_returns[OF assms(2) c] obtain st'
    where "add_knowledge c (nearby_mines g c) st = Some st'" by blast
  then show ?thesis using add_knowledge_sound[OF assms(2) c] Add_knowledge n by simp
next
  case (Mark_mine c)
  then show ?thesis using assms mark_mine_sound by simp
next
  case (Mark_safe c)
  then show ?thesis using assms mark_safe_sound by simp
next
  case (Make_safe_move l)
  then show ?thesis using assms make_safe_move_sound by simp
qed

lemma exec_ops_sound:
  assumes "\<forall>p\<in>set ps. consistent g p" and "sound (layout g) st"
  shows "\<exists>st'. exec_ops ps st = Some st' \<and> sound (layout g) st'"
  using assms
proof (induction ps arbitrary: st)
  case Nil
  then show ?case by simp
next
  case (Cons p ps)
  then obtain s1 where s1: "exec_op p st = Some s1" "sound (layout g) s1"
    using exec_op_sound[of g p st] by auto
  then show ?case using Cons.IH[of s1] Cons.prems(1) by simp
qed

section \<open>A scan that appends nothing\<close>

text \<open>
  When the scan leaves \<^verbatim>\<open>change\<close> false, the list it scanned is closed under the
  subsumption rule.
\<close>

lemma scan_pairs_closed:
  assumes "\<not> snd (scan_pairs (kn, False))"
  shows "closed kn"
  unfolding closed_def
proof (intro ballI impI)
  fix a b assume "a \<in> set kn" "b \<in> set kn" "subsumes a b"
  then have "derive a b \<in> set (fst (scan_pairs (kn, False)))"
    using scan_pairs_complete[of a "(kn, False)" b] by simp
  then show "derive a b \<in> set kn" using scan_pairs_unchanged[OF assms] by simp
qed

section \<open>Facts used by the claims\<close>

lemma observations_ok: "\<forall>c\<in>set cs. c \<notin> layout g \<Longrightarrow> \<forall>p\<in>set (observations g cs). consistent g p"
  by (simp add: observations_def)

lemma add_knowledge_before_loop:
  "n \<noteq> 0 \<Longrightarrow> add_knowledge c n st =
     (case infer_loop True (before_loop c n st) of
        None \<Rightarrow> None
      | Some r \<Rightarrow> Some (r\<lparr>mines := mark_new_mines (knowledge r) (mines r)\<rparr>))"
  by (simp add: add_knowledge_nonzero before_loop_def)

lemma sound_before_loop:
  "sound (layout g) st \<Longrightarrow> c \<notin> layout g \<Longrightarrow> sound (layout g) (before_loop c (nearby_mines g c) st)"
  unfolding before_loop_def by (rule sound_entry)

lemma sound_disjoint: "sound T st \<Longrightarrow> safes st \<inter> mines st = {}"
  by (auto simp: sound_def)

lemma sound_counts:
  "sound T st \<Longrightarrow> s \<in> set (knowledge st) \<Longrightarrow> 0 \<le> count s \<and> count s \<le> int (card (cells s))"
  by (auto simp: sound_def dest: holds_bounds)

lemma layout_board5: "layout board5 = {(2, 2)}"
  by (auto simp: layout_def board5_def)

lemma nearby_board5: "nearby_mines board5 (1, 1) = 1"
  by code_simp

section \<open>A negative count keeps the loop running\<close>

text \<open>
  With a sentence \<open>a\<close> of negative count and the sentence with no cell and count 0 in the
  knowledge, every scan appends: from \<open>a\<close> and the sentence with no cell of the largest
  count \<open>m\<close> it derives the cells of \<open>a\<close> with count \<open>m - count a\<close>, and from that and \<open>a\<close>
  the sentence with no cell and count \<open>m - 2 * count a\<close>, which is larger than \<open>m\<close>.
\<close>

lemma infer_loop_never:
  assumes "infer_loop ch st = Some r" and "ch" and "J st"
    and step: "\<And>s. J s \<Longrightarrow> length (knowledge s) \<noteq> 1 \<and> fst (infer_pass s) \<and> J (snd (infer_pass s))"
  shows False
  using assms(2,3)
proof (induction rule: infer_loop.raw_induct[OF _ assms(1)])
  case (1 loop ch st r)
  from step[OF "1.prems"(2)] have c: "length (knowledge st) \<noteq> 1" "fst (infer_pass st)"
    "J (snd (infer_pass st))" by simp_all
  then have "loop (fst (infer_pass st)) (snd (infer_pass st)) = Some r"
    using "1.hyps" "1.prems"(1) by simp
  then show ?case using "1.IH" c(2,3) by blast
qed

lemma cleanup_keeps:
  assumes "a \<in> set kn" and "cells a \<inter> sf = {}" and "cells a \<inter> mn = {}"
  shows "a \<in> set (cleanup sf mn kn)"
proof -
  have "cells a - sf = cells a" "cells a - mn = cells a" using assms(2,3) by auto
  then have "remove_mines mn (remove_safes sf a) = a"
    using assms(3) by (simp add: remove_mines_def remove_safes_def)
  then have "a = (remove_mines mn \<circ> remove_safes sf) a" by simp
  then show ?thesis unfolding cleanup_def map_map set_map using assms(1) by (rule image_eqI)
qed

lemma negative_count_changes:
  assumes a: "a \<in> set kn" and neg: "count a < 0"
    and e: "\<lparr>cells = {}, count = 0\<rparr> \<in> set kn"
  shows "snd (scan_pairs (kn, False))"
proof (rule ccontr)
  assume "\<not> snd (scan_pairs (kn, False))"
  then have cl: "closed kn" by (rule scan_pairs_closed)
  let ?E = "{s \<in> set kn. cells s = {}}"
  let ?M = "Max (count ` ?E)"
  have fin: "finite (count ` ?E)" by simp
  have ne: "count ` ?E \<noteq> {}" using e by force
  have "?M \<in> count ` ?E" using Max_in[OF fin ne] .
  then obtain m where m: "m \<in> set kn" "cells m = {}" "count m = ?M" by auto
  have "(0::int) \<in> count ` ?E" using e by force
  then have M0: "0 \<le> ?M" using Max_ge[OF fin] by blast
  have "subsumes a m" using m(2) by (simp add: subsumes_def)
  then have b: "derive a m \<in> set kn" using cl a m(1) unfolding closed_def by blast
  have cb: "cells (derive a m) = cells a" "count (derive a m) = ?M - count a"
    using m(2,3) M0 neg by (simp_all add: derive_def)
  have "subsumes a (derive a m)" using cb(1) by (simp add: subsumes_def)
  then have d: "derive a (derive a m) \<in> set kn" using cl a b unfolding closed_def by blast
  have cd: "cells (derive a (derive a m)) = {}" "count (derive a (derive a m)) = ?M - 2 * count a"
    using cb M0 neg by (simp_all add: derive_def)
  then have "derive a (derive a m) \<in> ?E" using d by simp
  then have "count (derive a (derive a m)) \<le> ?M" using Max_ge[OF fin] by blast
  then show False using cd(2) neg by simp
qed

lemma negative_count_diverges:
  assumes "a \<in> set (knowledge st)" and "count a < 0"
    and "cells a \<inter> safes st = {}" and "cells a \<inter> mines st = {}"
    and "\<lparr>cells = {}, count = 0\<rparr> \<in> set (knowledge st)"
  shows "infer_loop True st = None"
proof (rule ccontr)
  assume "infer_loop True st \<noteq> None"
  then obtain r where r: "infer_loop True st = Some r" by blast
  let ?e = "\<lparr>cells = {}, count = 0\<rparr> :: sentence"
  let ?J = "\<lambda>s::ai. a \<in> set (knowledge s) \<and> ?e \<in> set (knowledge s) \<and>
                 cells a \<inter> safes s = {} \<and> cells a \<inter> mines s = {}"
  have step: "\<And>s. ?J s \<Longrightarrow> length (knowledge s) \<noteq> 1 \<and> fst (infer_pass s) \<and> ?J (snd (infer_pass s))"
  proof -
    fix s assume j: "?J s"
    have "a \<noteq> ?e" using assms(2) by auto
    then have l: "length (knowledge s) \<noteq> 1" using j by (cases "knowledge s") auto
    have ch: "fst (infer_pass s)"
      unfolding infer_pass_change using negative_count_changes[of a "knowledge s"] j assms(2) by simp
    have sub: "set (knowledge s) \<subseteq> set (fst (scan_pairs (knowledge s, False)))"
      using extends_subset[OF scan_pairs_extends[OF derive_closed_True], of "(knowledge s, False)"]
      by simp
    have "a \<in> set (knowledge (snd (infer_pass s)))"
      unfolding infer_pass_knowledge using j sub by (intro cleanup_keeps) auto
    moreover have "?e \<in> set (knowledge (snd (infer_pass s)))"
      unfolding infer_pass_knowledge using j sub by (intro cleanup_keeps) auto
    ultimately show "length (knowledge s) \<noteq> 1 \<and> fst (infer_pass s) \<and> ?J (snd (infer_pass s))"
      using l ch j infer_pass_frame[of s] by simp
  qed
  have "?J st" using assms by simp
  from infer_loop_never[OF r _ this step] show False by simp
qed

text \<open>
  The counts 8 at \<open>(3, 3)\<close> and 1 at \<open>(3, 5)\<close> contradict each other, since the two cells
  share three neighbours, and no board gives them. With them the clean-up leaves a
  sentence of count \<open>-2\<close>, and the run has no state after it: what ends the loop is that
  the counts come from a board.
\<close>

lemma contradictory_counts_loop:
  "exec_ops [Add_knowledge (3, 3) 8, Add_knowledge (3, 5) 1] (init_ai 8 8) = None"
proof -
  let ?st0 = "\<lparr>height = 8, width = 8, moves_made = {(3, 3)},
     mines = {(2, 4), (3, 4), (4, 4), (2, 3), (4, 3), (2, 2), (3, 2), (4, 2)},
     safes = {},
     knowledge = [\<lparr>cells = {(2, 4), (3, 4), (4, 4), (2, 3), (4, 3), (2, 2), (3, 2), (4, 2)},
                   count = 8\<rparr>]\<rparr>"
  let ?a = "\<lparr>cells = {(2, 6), (3, 6), (4, 6), (2, 5), (4, 5)}, count = - 2\<rparr>"
  let ?st1 = "\<lparr>height = 8, width = 8, moves_made = {(3, 5), (3, 3)},
     mines = {(2, 4), (3, 4), (4, 4), (2, 3), (4, 3), (2, 2), (3, 2), (4, 2)},
     safes = {},
     knowledge = [\<lparr>cells = {}, count = 0\<rparr>, ?a, \<lparr>cells = {}, count = 0\<rparr>]\<rparr>"
  have first: "add_knowledge (3, 3) 8 (init_ai 8 8) = Some ?st0" by code_simp
  have pass: "infer_pass (before_loop (3, 5) 1 ?st0) = (True, ?st1)" by code_simp
  have len: "length (knowledge (before_loop (3, 5) 1 ?st0)) \<noteq> 1"
    by (simp add: before_loop_def)
  have "infer_loop True ?st1 = None"
    by (rule negative_count_diverges[of ?a]) simp_all
  then have "infer_loop True (before_loop (3, 5) 1 ?st0) = None"
    using len pass by (subst infer_loop.simps) simp
  then have "add_knowledge (3, 5) 1 ?st0 = None"
    by (simp add: add_knowledge_before_loop)
  then show ?thesis using first by simp
qed

section \<open>The claims\<close>

text \<open>
  C1 is not what the code does. The claim: after \<^verbatim>\<open>add_knowledge(cell, count)\<close> the cell is
  in \<^verbatim>\<open>moves_made\<close> and in the safe set. The code records the move and removes the cell
  from every sentence, but never adds it to \<^verbatim>\<open>self.safes\<close>: on a new engine, after
  \<^verbatim>\<open>add_knowledge((0, 0), 0)\<close> the cell \<open>(0, 0)\<close> is a move made and is not safe.
\<close>

theorem add_knowledge_cell_not_in_safes:
  "add_knowledge (0, 0) 0 (init_ai 8 8) =
     Some \<lparr>height = 8, width = 8, moves_made = {(0, 0)}, mines = {},
           safes = {(0, 1), (1, 1), (1, 0)}, knowledge = []\<rparr>"
  by (simp add: add_knowledge_def init_ai_def neighbours_def mark_new_mines_def)

text \<open>
  C2 is not what the code does. The claim: \<^verbatim>\<open>make_safe_move\<close> returns a safe cell that is
  not a move made whenever there is one. The code looks for one only when the safe set has
  more than one element: with \<open>(0, 1)\<close> the only safe cell and no move made, it returns
  \<^verbatim>\<open>None\<close> and leaves the state as it was.
\<close>

theorem make_safe_move_single_safe_cell:
  "make_safe_move [(0, 1)] (mark_safe (0, 1) (init_ai 8 8)) =
     (None, \<lparr>height = 8, width = 8, moves_made = {}, mines = {}, safes = {(0, 1)},
             knowledge = []\<rparr>)"
  by (simp add: make_safe_move_def mark_safe_def init_ai_def)

text \<open>
  C3 is not what the code does. The claim: after \<^verbatim>\<open>add_knowledge(cell, 0)\<close> every neighbour
  inside the board, whatever its height and width, is safe. The code keeps the neighbours
  whose coordinates are between 0 and 7, not those inside the board of the engine: on a
  board of 10 by 10, after \<^verbatim>\<open>add_knowledge((8, 8), 0)\<close> only \<open>(7, 7)\<close> is safe, and the
  neighbour \<open>(9, 9)\<close>, which is on the board, is not.
\<close>

theorem add_knowledge_zero_large_board:
  "add_knowledge (8, 8) 0 (init_ai 10 10) =
     Some \<lparr>height = 10, width = 10, moves_made = {(8, 8)}, mines = {}, safes = {(7, 7)},
           knowledge = []\<rparr>"
  by (simp add: add_knowledge_def init_ai_def neighbours_def mark_new_mines_def)

text \<open>
  C4 is not what the code does. The claim: for a count above zero the new sentence is over
  the neighbours of the cell that are inside the board. The code builds it over all eight
  neighbours: for the corner \<open>(0, 0)\<close> the sentence holds five cells with a negative
  coordinate.
\<close>

theorem add_knowledge_corner_sentence:
  "add_knowledge (0, 0) 1 (init_ai 8 8) =
     Some \<lparr>height = 8, width = 8, moves_made = {(0, 0)}, mines = {}, safes = {},
           knowledge = [\<lparr>cells = {(- 1, 1), (0, 1), (1, 1), (- 1, 0), (1, 0), (- 1, - 1),
                                  (0, - 1), (1, - 1)},
                         count = 1\<rparr>]\<rparr>"
  by (simp add: add_knowledge_def init_ai_def neighbours_def mark_new_mines_def infer_loop.simps)

text \<open>
  C5. For two sentences of the knowledge, at the indices \<open>x\<close> and \<open>y\<close>, with the cells of
  the first inside the cells of the second: the sentence derived from them, in either
  order, has the cells of the second that are not in the first and the absolute difference
  of the counts; the step for the pair appends it exactly when no equal sentence is in the
  knowledge; and after the whole scan it is in the knowledge, which is the old list
  followed by sentences that were not in it, each once.
\<close>

theorem subsumption_rule:
  assumes "x < length kn" and "y < length kn" and "cells (kn ! x) \<subseteq> cells (kn ! y)"
  shows "derive (kn ! x) (kn ! y) =
           \<lparr>cells = cells (kn ! y) - cells (kn ! x), count = \<bar>count (kn ! y) - count (kn ! x)\<bar>\<rparr> \<and>
         derive (kn ! y) (kn ! x) = derive (kn ! x) (kn ! y) \<and>
         pair_step x y (kn, ch) =
           (if derive (kn ! x) (kn ! y) \<in> set kn then (kn, ch)
            else (kn @ [derive (kn ! x) (kn ! y)], True)) \<and>
         pair_step y x (kn, ch) =
           (if derive (kn ! x) (kn ! y) \<in> set kn then (kn, ch)
            else (kn @ [derive (kn ! x) (kn ! y)], True)) \<and>
         derive (kn ! x) (kn ! y) \<in> set (fst (scan_pairs (kn, ch))) \<and>
         (\<exists>ext. fst (scan_pairs (kn, ch)) = kn @ ext \<and> distinct ext \<and> set ext \<inter> set kn = {})"
proof -
  have d: "derive (kn ! x) (kn ! y) =
           \<lparr>cells = cells (kn ! y) - cells (kn ! x), count = \<bar>count (kn ! y) - count (kn ! x)\<bar>\<rparr>"
    "derive (kn ! y) (kn ! x) = derive (kn ! x) (kn ! y)"
    using derive_subset[OF assms(3)] by simp_all
  have p1: "pair_step x y (kn, ch) =
           (if derive (kn ! x) (kn ! y) \<in> set kn then (kn, ch)
            else (kn @ [derive (kn ! x) (kn ! y)], True))"
    using assms(3) by (simp add: pair_step_def)
  have p2: "pair_step y x (kn, ch) =
           (if derive (kn ! x) (kn ! y) \<in> set kn then (kn, ch)
            else (kn @ [derive (kn ! x) (kn ! y)], True))"
    using assms(3) d(2) by (simp add: pair_step_def)
  have "subsumes (kn ! x) (kn ! y)" using assms(3) by (simp add: subsumes_def)
  then have m: "derive (kn ! x) (kn ! y) \<in> set (fst (scan_pairs (kn, ch)))"
    using scan_pairs_complete[of "kn ! x" "(kn, ch)" "kn ! y"] assms(1,2) by simp
  have e: "\<exists>ext. fst (scan_pairs (kn, ch)) = kn @ ext \<and> distinct ext \<and> set ext \<inter> set kn = {}"
    using scan_pairs_extends[OF derive_closed_True, of "(kn, ch)"] unfolding extends_def by auto
  from d p1 p2 m e show ?thesis by blast
qed

theorem subsumption_rule_witness:
  "pair_step 0 1 ([\<lparr>cells = {(0, 0)}, count = 1\<rparr>, \<lparr>cells = {(0, 0), (0, 1)}, count = 1\<rparr>], False) =
     ([\<lparr>cells = {(0, 0)}, count = 1\<rparr>, \<lparr>cells = {(0, 0), (0, 1)}, count = 1\<rparr>,
       \<lparr>cells = {(0, 1)}, count = 0\<rparr>], True)"
  using subsumption_rule[of 0 "[\<lparr>cells = {(0, 0)}, count = 1\<rparr>, \<lparr>cells = {(0, 0), (0, 1)}, count = 1\<rparr>]" 1 False]
  by simp

text \<open>
  C6 is not what the code does. The claim: after every call of \<^verbatim>\<open>add_knowledge\<close>,
  whatever the count, no sentence holds a safe cell or a mine and the sentence derived from
  every pair with one cell set inside the other is in the knowledge. With count 0 the code
  adds the neighbours to \<^verbatim>\<open>self.safes\<close> and runs neither the clean-up nor the scan: on a
  board of 8 by 8 with one mine at \<open>(1, 0)\<close>, after \<^verbatim>\<open>add_knowledge((0, 0), 1)\<close> and
  \<^verbatim>\<open>add_knowledge((0, 2), 0)\<close> the only sentence still holds the safe cells \<open>(0, 1)\<close> and
  \<open>(1, 1)\<close>, and the sentence with no cell and count 0, derived from the sentence and
  itself, is not in the knowledge.
\<close>

theorem add_knowledge_zero_no_cleanup:
  "exec_ops [Add_knowledge (0, 0) 1, Add_knowledge (0, 2) 0] (init_ai 8 8) =
     Some \<lparr>height = 8, width = 8, moves_made = {(0, 2), (0, 0)}, mines = {},
           safes = {(0, 3), (1, 3), (1, 2), (0, 1), (1, 1)},
           knowledge = [\<lparr>cells = {(- 1, 1), (0, 1), (1, 1), (- 1, 0), (1, 0), (- 1, - 1),
                                  (0, - 1), (1, - 1)},
                         count = 1\<rparr>]\<rparr>"
  by code_simp

text \<open>
  C7 as stated does not hold. The claim: after any sequence of calls every sentence has a count
  between zero and the number of its cells. \<^verbatim>\<open>Sentence.mark_mine\<close> lowers the count of a
  sentence whatever it is: after \<^verbatim>\<open>add_knowledge((1, 1), 1)\<close>, \<^verbatim>\<open>mark_mine((0, 0))\<close> and
  \<^verbatim>\<open>mark_mine((0, 1))\<close> the sentence has the count \<open>-1\<close>.
\<close>

theorem count_invariant_counterexample:
  "exec_ops [Add_knowledge (1, 1) 1, Mark_mine (0, 0), Mark_mine (0, 1)] (init_ai 8 8) =
     Some \<lparr>height = 8, width = 8, moves_made = {(1, 1)}, mines = {(0, 1), (0, 0)}, safes = {},
           knowledge = [\<lparr>cells = {(0, 2), (1, 2), (2, 2), (2, 1), (1, 0), (2, 0)},
                         count = - 1\<rparr>]\<rparr>"
  by code_simp

text \<open>
  C7 as amended. After any sequence of calls that is consistent with one board
  (\<^verbatim>\<open>add_knowledge\<close> for a cell that is not a mine with the count of the board,
  \<^verbatim>\<open>mark_mine\<close> for a mine of the board, \<^verbatim>\<open>mark_safe\<close> for a cell that is not one,
  \<^verbatim>\<open>make_safe_move\<close>), from a new engine, every call has returned and every sentence has a
  count between zero and the number of its cells.
\<close>

theorem count_invariant_consistent:
  assumes "\<forall>p\<in>set ps. consistent g p"
  shows "\<exists>st. exec_ops ps (init_ai h w) = Some st \<and>
           (\<forall>s\<in>set (knowledge st). 0 \<le> count s \<and> count s \<le> int (card (cells s)))"
  using exec_ops_sound[OF assms sound_init, of h w] sound_counts by blast

theorem count_invariant_consistent_witness:
  "\<exists>st. exec_ops [Add_knowledge (1, 1) 1, Mark_mine (2, 2), Mark_safe (0, 0), Make_safe_move []]
           (init_ai 5 5) = Some st \<and>
        (\<forall>s\<in>set (knowledge st). 0 \<le> count s \<and> count s \<le> int (card (cells s)))"
  by (rule count_invariant_consistent[of _ board5])
     (simp add: layout_board5 nearby_board5)

text \<open>
  C8. For every list of cells that are not mines of a board, revealed one after the other
  to a new engine, each with the count that the board gives: every call of
  \<^verbatim>\<open>add_knowledge\<close> returns, and after the last one no cell is both in the safe set and in
  the mine set. The list is any list, so this holds after every call of the sequence.
\<close>

theorem safes_mines_disjoint:
  assumes "\<forall>c\<in>set cs. c \<notin> layout g"
  shows "\<exists>st. exec_ops (observations g cs) (init_ai h w) = Some st \<and> safes st \<inter> mines st = {}"
  using exec_ops_sound[OF observations_ok[OF assms] sound_init, of h w] sound_disjoint by blast

theorem safes_mines_disjoint_witness:
  "\<exists>st. exec_ops (observations board5 [(0, 0), (1, 1), (2, 1)]) (init_ai 5 5) = Some st \<and>
        safes st \<inter> mines st = {}"
  by (rule safes_mines_disjoint) (simp add: layout_board5)

text \<open>
  C9. In the state that a new engine reaches by a finite sequence of observations on a
  board, each of a cell that is not a mine with the count that the board gives, the loop
  of \<^verbatim>\<open>add_knowledge\<close> ends for the next such observation, and so the call returns; every
  call of the sequence has returned as well.
\<close>

theorem closure_loop_terminates:
  assumes "\<forall>c\<in>set cs. c \<notin> layout g" and "c \<notin> layout g"
  shows "\<exists>st. exec_ops (observations g cs) (init_ai h w) = Some st \<and>
           (\<exists>r. infer_loop True (before_loop c (nearby_mines g c) st) = Some r) \<and>
           (\<exists>st'. add_knowledge c (nearby_mines g c) st = Some st')"
proof -
  from exec_ops_sound[OF observations_ok[OF assms(1)] sound_init]
  obtain st where st: "exec_ops (observations g cs) (init_ai h w) = Some st" "sound (layout g) st"
    by blast
  have "\<exists>r. infer_loop True (before_loop c (nearby_mines g c) st) = Some r"
    using infer_loop_ends[OF sound_before_loop[OF st(2) assms(2)]] .
  moreover have "\<exists>st'. add_knowledge c (nearby_mines g c) st = Some st'"
    using add_knowledge_returns[OF st(2) assms(2)] .
  ultimately show ?thesis using st(1) by blast
qed

theorem closure_loop_terminates_witness:
  "\<exists>st. exec_ops (observations board5 [(0, 0), (1, 1)]) (init_ai 5 5) = Some st \<and>
           (\<exists>r. infer_loop True (before_loop (2, 1) (nearby_mines board5 (2, 1)) st) = Some r) \<and>
           (\<exists>st'. add_knowledge (2, 1) (nearby_mines board5 (2, 1)) st = Some st')"
  by (rule closure_loop_terminates) (simp_all add: layout_board5)

text \<open>
  C10. Over any run of calls of \<^verbatim>\<open>add_knowledge\<close>, \<^verbatim>\<open>mark_mine\<close>, \<^verbatim>\<open>mark_safe\<close> and
  \<^verbatim>\<open>make_safe_move\<close>, from any state, the sets \<^verbatim>\<open>safes\<close>, \<^verbatim>\<open>mines\<close> and \<^verbatim>\<open>moves_made\<close>
  after the run contain the sets before it: no call removes a cell from any of them.
\<close>

theorem sets_only_grow:
  assumes "exec_ops ps st = Some st'"
  shows "safes st \<subseteq> safes st' \<and> mines st \<subseteq> mines st' \<and> moves_made st \<subseteq> moves_made st'"
  using assms
proof (induction ps arbitrary: st)
  case Nil
  then show ?case by simp
next
  case (Cons p ps)
  then obtain s1 where s1: "exec_op p st = Some s1" and rest: "exec_ops ps s1 = Some st'"
    by (auto split: option.splits)
  from exec_op_grows[OF s1] Cons.IH[OF rest] show ?case by blast
qed

theorem sets_only_grow_witness:
  "exec_ops grow_ops grow_start \<noteq> None \<and>
   safes grow_start \<subseteq> safes (the (exec_ops grow_ops grow_start)) \<and>
   mines grow_start \<subseteq> mines (the (exec_ops grow_ops grow_start)) \<and>
   moves_made grow_start \<subseteq> moves_made (the (exec_ops grow_ops grow_start))"
proof -
  have e: "exec_ops grow_ops grow_start =
     Some \<lparr>height = 8, width = 8, moves_made = {(0, 1), (0, 2), (0, 0)},
           mines = {(5, 5), (2, 2)}, safes = {(0, 1), (1, 1), (1, 0)},
           knowledge =
             [\<lparr>cells = {(2, 2)}, count = 1\<rparr>,
              \<lparr>cells = {(- 1, 3), (0, 3), (1, 3), (- 1, 2), (1, 2), (- 1, 1)}, count = 1\<rparr>,
              \<lparr>cells = {}, count = 0\<rparr>]\<rparr>"
    by code_simp
  show ?thesis using sets_only_grow[OF e] e by simp
qed

end
